theory Spec2Isabelle
  imports Main "HOL-Library.Word"
begin

section \<open>The LRU cache of \<^verbatim>\<open>lru-cache.cpp\<close>\<close>

text \<open>
  \<^verbatim>\<open>Algo::LruCache<Key, Val, LoadFactor, Hash, Equal>\<close> keeps a vector of nodes (the arena),
  a vector of iterators into one intrusive singly linked list of all nodes (the bucket
  table), and one intrusive doubly linked list of all nodes (the usage order).

  Nodes are referred to by their position in the arena. An iterator is \<open>Some i\<close> for the
  node at position \<open>i\<close>, and \<open>None\<close> for \<^verbatim>\<open>end()\<close>. Each of the two intrusive lists is the
  HOL list of the positions it links, front first. \<^verbatim>\<open>Equal\<close> is \<^verbatim>\<open>std::equal_to\<close>, that is
  HOL equality. \<^verbatim>\<open>size_t\<close> has 64 bits. Sizes and hash values are natural numbers, and
  the one product of the source, \<^verbatim>\<open>capacity * LoadFactor\<close> at line 58, wraps around at
  \<open>2 ^ 64\<close>. The argument of \<^verbatim>\<open>get_instance\<close> is a word of 64 bits.
\<close>

subsection \<open>Data\<close>

text \<open>\<^verbatim>\<open>struct Node\<close>, without its two hooks: the links are held by the two lists below.\<close>

record ('k, 'v) node =
  key :: 'k
  val :: 'v
  cached_hash :: nat

text \<open>
  What the template is instantiated with: \<^verbatim>\<open>Hash\<close>, \<^verbatim>\<open>LoadFactor\<close>, and the values
  \<^verbatim>\<open>Key()\<close> and \<^verbatim>\<open>Val()\<close> of default construction.
\<close>

record ('k, 'v) traits =
  key_hash :: "'k \<Rightarrow> nat"
  load_factor :: nat
  key_init :: 'k
  val_init :: 'v

text \<open>The data members \<^verbatim>\<open>_buckets\<close>, \<^verbatim>\<open>_arena\<close>, \<^verbatim>\<open>_bucket_list\<close>, \<^verbatim>\<open>_usage_list\<close>.\<close>

record ('k, 'v) cache =
  buckets :: "nat option list"
  arena :: "('k, 'v) node list"
  bucket_list :: "nat list"
  usage_list :: "nat list"

text \<open>
  The source has no \<^verbatim>\<open>throw\<close> and no error return of its own. What it has is undefined
  behaviour: \<^verbatim>\<open>% _buckets.size()\<close> with an empty bucket table, \<^verbatim>\<open>_usage_list.front()\<close> on
  an empty list, and \<^verbatim>\<open>_buckets[...]\<close> beyond the table. And the two \<^verbatim>\<open>std::vector\<close> members
  throw from their constructors: \<^verbatim>\<open>std::length_error\<close> for a size above \<^verbatim>\<open>max_size()\<close>,
  \<^verbatim>\<open>std::bad_alloc\<close> when the allocator has no storage for them. Each is a value here.
\<close>

datatype error = DivisionByZero | FrontOfEmptyList | IndexOutOfRange | LengthError | BadAlloc

text \<open>
  What the two vectors depend on and the source does not fix: \<^verbatim>\<open>max_size()\<close> of
  \<^verbatim>\<open>_buckets\<close> and of \<^verbatim>\<open>_arena\<close>, and whether the allocator grants the storage for a
  number of buckets and for a number of nodes.
\<close>

record platform =
  buckets_max_size :: nat
  arena_max_size :: nat
  buckets_alloc :: "nat \<Rightarrow> bool"
  arena_alloc :: "nat \<Rightarrow> bool"

subsection \<open>The intrusive lists\<close>

text \<open>The nodes from an iterator's position to the end of the list.\<close>

definition slist_from :: "nat list \<Rightarrow> nat option \<Rightarrow> nat list" where
  "slist_from l it = (case it of None \<Rightarrow> [] | Some i \<Rightarrow> dropWhile (\<lambda>j. j \<noteq> i) l)"

text \<open>\<^verbatim>\<open>std::next(it)\<close>: the iterator one step further, \<^verbatim>\<open>end()\<close> after the last node.\<close>

definition std_next :: "nat list \<Rightarrow> nat option \<Rightarrow> nat option" where
  "std_next l it = (case slist_from l it of [] \<Rightarrow> None | _ # rest \<Rightarrow>
     (case rest of [] \<Rightarrow> None | j # _ \<Rightarrow> Some j))"

text \<open>\<^verbatim>\<open>_usage_list.erase(usage_it); _usage_list.push_back(*it);\<close>\<close>

definition erase_push_back :: "nat list \<Rightarrow> nat \<Rightarrow> nat list" where
  "erase_push_back l i = remove1 i l @ [i]"

subsection \<open>Construction\<close>

text \<open>
  \<^verbatim>\<open>capacity * LoadFactor\<close>, the size of the bucket table: a product in \<^verbatim>\<open>size_t\<close>, which
  wraps around at \<open>2 ^ 64 = 18446744073709551616\<close>.
\<close>

definition bucket_count :: "('k, 'v) traits \<Rightarrow> nat \<Rightarrow> nat" where
  "bucket_count T capacity = (capacity * load_factor T) mod 18446744073709551616"

text \<open>
  The constructor of a vector with \<open>n\<close> elements: \<^verbatim>\<open>std::length_error\<close> above
  \<^verbatim>\<open>max_size()\<close>, \<^verbatim>\<open>std::bad_alloc\<close> when the allocator refuses; nothing is allocated for
  no element.
\<close>

definition vector_ctor :: "nat \<Rightarrow> (nat \<Rightarrow> bool) \<Rightarrow> nat \<Rightarrow> error option" where
  "vector_ctor max_size alloc n =
     (if max_size < n then Some LengthError
      else if 0 < n \<and> \<not> alloc n then Some BadAlloc
      else None)"

text \<open>
  The constructor once both vectors are there: \<^verbatim>\<open>_buckets\<close> has \<^verbatim>\<open>capacity * LoadFactor\<close>
  entries and \<^verbatim>\<open>_arena\<close> has \<^verbatim>\<open>capacity\<close> nodes, then every node of the arena, in
  arena order, is pushed to the front of both lists, then every bucket is set to
  \<^verbatim>\<open>_bucket_list.end()\<close>.
\<close>

definition push_front_both :: "nat \<Rightarrow> ('k, 'v) cache \<Rightarrow> ('k, 'v) cache" where
  "push_front_both i c = c\<lparr>bucket_list := i # bucket_list c, usage_list := i # usage_list c\<rparr>"

definition LruCache :: "('k, 'v) traits \<Rightarrow> nat \<Rightarrow> ('k, 'v) cache" where
  "LruCache T capacity =
     (let c0 = \<lparr>buckets = replicate (bucket_count T capacity) None,
                arena = replicate capacity
                  \<lparr>key = key_init T, val = val_init T, cached_hash = 0\<rparr>,
                bucket_list = [], usage_list = []\<rparr>;
          c1 = fold push_front_both [0..<capacity] c0
      in c1\<lparr>buckets := map (\<lambda>_. None) (buckets c1)\<rparr>)"

text \<open>
  \<^verbatim>\<open>get_instance(arg)\<close>, at its first call: the constructor runs with \<^verbatim>\<open>arg\<close>. Its member
  initialisers construct \<^verbatim>\<open>_buckets\<close> and then \<^verbatim>\<open>_arena\<close>, in the order of their
  declaration, and what either of them throws leaves \<^verbatim>\<open>get_instance\<close>. The constructor has
  no check of its own.
\<close>

definition get_instance ::
    "platform \<Rightarrow> ('k, 'v) traits \<Rightarrow> 64 word \<Rightarrow> error + ('k, 'v) cache" where
  "get_instance P T arg =
     (case vector_ctor (buckets_max_size P) (buckets_alloc P) (bucket_count T (unat arg)) of
        Some e \<Rightarrow> Inl e
      | None \<Rightarrow>
          (case vector_ctor (arena_max_size P) (arena_alloc P) (unat arg) of
             Some e \<Rightarrow> Inl e
           | None \<Rightarrow> Inr (LruCache T (unat arg))))"

subsection \<open>The search loop\<close>

text \<open>
  The \<^verbatim>\<open>while\<close> loop of both \<^verbatim>\<open>update\<close> and \<^verbatim>\<open>resolve\<close>, over the nodes from the bucket's
  iterator on: it stops at \<^verbatim>\<open>end()\<close>, at a node with another cached hash, or at the node
  with the key, which it returns.
\<close>

fun find_node :: "('k, 'v) node list \<Rightarrow> nat \<Rightarrow> 'k \<Rightarrow> nat list \<Rightarrow> nat option" where
  "find_node ar hash k [] = None"
| "find_node ar hash k (i # its) =
     (if cached_hash (ar ! i) = hash
      then (if k = key (ar ! i) then Some i else find_node ar hash k its)
      else None)"

text \<open>\<^verbatim>\<open>size_t hash(_key_hash(key) % _buckets.size());\<close>, for a table that is not empty.\<close>

definition bucket_of :: "('k, 'v) traits \<Rightarrow> ('k, 'v) cache \<Rightarrow> 'k \<Rightarrow> nat" where
  "bucket_of T c k = key_hash T k mod length (buckets c)"

text \<open>\<^verbatim>\<open>auto it(_buckets[hash]);\<close> and the loop.\<close>

definition lookup :: "('k, 'v) traits \<Rightarrow> ('k, 'v) cache \<Rightarrow> 'k \<Rightarrow> nat option" where
  "lookup T c k =
     find_node (arena c) (bucket_of T c k) k
       (slist_from (bucket_list c) (buckets c ! bucket_of T c k))"

subsection \<open>\<^verbatim>\<open>update\<close> and \<^verbatim>\<open>resolve\<close>\<close>

text \<open>
  The new head of the victim's old bucket (lines 102 to 104): \<^verbatim>\<open>end()\<close> unless the node
  after the victim in the bucket list has the victim's cached hash.
\<close>

definition old_bucket_head :: "('k, 'v) cache \<Rightarrow> nat \<Rightarrow> nat option" where
  "old_bucket_head c lru =
     (case std_next (bucket_list c) (Some lru) of
        None \<Rightarrow> None
      | Some j \<Rightarrow>
          if cached_hash (arena c ! j) \<noteq> cached_hash (arena c ! lru) then None else Some j)"

definition update :: "('k, 'v) traits \<Rightarrow> ('k, 'v) cache \<Rightarrow> 'k \<Rightarrow> 'v \<Rightarrow> error + ('k, 'v) cache" where
  "update T c k v =
     (if buckets c = [] then Inl DivisionByZero
      else case lookup T c k of
        Some i \<Rightarrow>
          Inr (c\<lparr>arena := (arena c)[i := (arena c ! i)\<lparr>val := v\<rparr>],
                 usage_list := erase_push_back (usage_list c) i\<rparr>)
      | None \<Rightarrow>
          (case usage_list c of
             [] \<Rightarrow> Inl FrontOfEmptyList
           | lru # rest \<Rightarrow>
               if length (buckets c) \<le> cached_hash (arena c ! lru) then Inl IndexOutOfRange
               else Inr (c\<lparr>buckets :=
                              (buckets c)[cached_hash (arena c ! lru) := old_bucket_head c lru,
                                          bucket_of T c k := Some lru],
                            arena := (arena c)[lru :=
                              \<lparr>key = k, val = v, cached_hash = bucket_of T c k\<rparr>],
                            usage_list := rest @ [lru]\<rparr>)))"

definition resolve :: "('k, 'v) traits \<Rightarrow> ('k, 'v) cache \<Rightarrow> 'k \<Rightarrow> error + ('v \<times> ('k, 'v) cache)" where
  "resolve T c k =
     (if buckets c = [] then Inl DivisionByZero
      else case lookup T c k of
        Some i \<Rightarrow> Inr (val (arena c ! i), c\<lparr>usage_list := erase_push_back (usage_list c) i\<rparr>)
      | None \<Rightarrow> Inr (val_init T, c))"

subsection \<open>Sequences of calls\<close>

datatype ('k, 'v) call = Update 'k 'v | Resolve 'k

text \<open>
  The calls run in order on one cache. For every \<^verbatim>\<open>resolve\<close> call the run records, in
  order, whether the loop found the key (the \<^verbatim>\<open>return\<close> inside the loop, against the
  \<^verbatim>\<open>return Val()\<close> after it) and the value returned. The first undefined step ends the
  run.
\<close>

fun run :: "('k, 'v) traits \<Rightarrow> ('k, 'v) cache \<Rightarrow> ('k, 'v) call list \<Rightarrow>
    error + ((bool \<times> 'v) list \<times> ('k, 'v) cache)" where
  "run T c [] = Inr ([], c)"
| "run T c (Update k v # cs) =
     (case update T c k v of
        Inl e \<Rightarrow> Inl e
      | Inr c' \<Rightarrow> run T c' cs)"
| "run T c (Resolve k # cs) =
     (case resolve T c k of
        Inl e \<Rightarrow> Inl e
      | Inr (r, c') \<Rightarrow>
          (case run T c' cs of
             Inl e \<Rightarrow> Inl e
           | Inr (rs, c'') \<Rightarrow> Inr ((lookup T c k \<noteq> None, r) # rs, c'')))"

text \<open>The results of a run, without the cache it ends in.\<close>

definition results :: "error + ((bool \<times> 'v) list \<times> ('k, 'v) cache) \<Rightarrow> error + (bool \<times> 'v) list" where
  "results r = (case r of Inl e \<Rightarrow> Inl e | Inr (rs, c) \<Rightarrow> Inr rs)"

subsection \<open>The walk of a bucket\<close>

text \<open>
  The nodes that the loop passes when no key matches: from the bucket's iterator on, as
  long as the cached hash is the bucket.
\<close>

fun visited :: "('k, 'v) node list \<Rightarrow> nat \<Rightarrow> nat list \<Rightarrow> nat list" where
  "visited ar hash [] = []"
| "visited ar hash (i # its) =
     (if cached_hash (ar ! i) = hash then i # visited ar hash its else [])"

definition bucket_walk :: "('k, 'v) cache \<Rightarrow> nat \<Rightarrow> nat list" where
  "bucket_walk c b = visited (arena c) b (slist_from (bucket_list c) (buckets c ! b))"

text \<open>The nodes of the arena whose cached hash is the bucket.\<close>

definition bucket_members :: "('k, 'v) cache \<Rightarrow> nat \<Rightarrow> nat list" where
  "bucket_members c b = filter (\<lambda>i. cached_hash (arena c ! i) = b) [0..<length (arena c)]"

subsection \<open>The instance of \<^verbatim>\<open>main\<close>\<close>

text \<open>
  \<^verbatim>\<open>using DnsCache = Algo::LruCache<std::string, std::string>\<close>: strings for keys and
  values, the empty string for both default values, load factor 4. \<^verbatim>\<open>std::hash\<close> is not
  part of the source; the hash function is the parameter \<open>h\<close>.
\<close>

definition DnsCache :: "(string \<Rightarrow> nat) \<Rightarrow> (string, string) traits" where
  "DnsCache h = \<lparr>key_hash = h, load_factor = 4, key_init = [], val_init = []\<rparr>"

text \<open>
  A platform for \<^verbatim>\<open>DnsCache\<close>: \<^verbatim>\<open>max_size()\<close> as libstdc++ has it on 64 bits, which is
  \<^verbatim>\<open>PTRDIFF_MAX\<close> divided by the size of an element, 8 bytes for an iterator and 96 bytes
  for a node of two strings, and an allocator that grants every request.
\<close>

definition lp64 :: platform where
  "lp64 = \<lparr>buckets_max_size = 9223372036854775807 div 8,
           arena_max_size = 9223372036854775807 div 96,
           buckets_alloc = (\<lambda>n. True), arena_alloc = (\<lambda>n. True)\<rparr>"

text \<open>The calls of the basic test of \<^verbatim>\<open>main\<close>, lines 191 to 205.\<close>

definition basic_test :: "(string, string) call list" where
  "basic_test =
     [Update ''abc'' ''ABC'', Update ''def'' ''DEF'', Resolve ''abc'', Resolve ''def'',
      Update ''abc'' ''ABC!'', Resolve ''def'', Resolve ''abc'', Update ''qwe'' ''QWE'',
      Resolve ''abc'', Resolve ''qwe'', Resolve ''def'', Update ''iop'' ''IOP'',
      Resolve ''qwe'', Resolve ''iop'', Resolve ''abc'']"

text \<open>
  A hash function for the four keys of the basic test: the values that the \<^verbatim>\<open>std::hash\<close>
  of libstdc++ has for them on 64 bits. Their buckets in a table of 8 are 1, 0, 6 and 1.
\<close>

definition libstdcxx_hash :: "string \<Rightarrow> nat" where
  "libstdcxx_hash k =
     (if k = ''abc'' then 3663726644998027833
      else if k = ''def'' then 11697390762615875584
      else if k = ''qwe'' then 6063860236199242894
      else if k = ''iop'' then 11171030324247466897
      else 0)"

subsection \<open>Well-formed caches\<close>

text \<open>
  What construction sets up and every call keeps: the bucket list links the arena from its
  last node down to its first, the usage list holds every node once, every cached hash is
  an index of the bucket table, and a bucket that is not \<^verbatim>\<open>end()\<close> holds a node with that
  bucket as its cached hash.
\<close>

definition well_formed :: "('k, 'v) cache \<Rightarrow> bool" where
  "well_formed c \<longleftrightarrow>
     bucket_list c = rev [0..<length (arena c)] \<and>
     distinct (usage_list c) \<and>
     set (usage_list c) = {0..<length (arena c)} \<and>
     (buckets c \<noteq> [] \<longrightarrow> (\<forall>n \<in> set (arena c). cached_hash n < length (buckets c))) \<and>
     (\<forall>b < length (buckets c). \<forall>i. buckets c ! b = Some i \<longrightarrow>
        i < length (arena c) \<and> cached_hash (arena c ! i) = b)"

section \<open>What construction builds\<close>

lemma fold_push_front_both:
  "fold push_front_both [0..<n] c =
     c\<lparr>bucket_list := rev [0..<n] @ bucket_list c, usage_list := rev [0..<n] @ usage_list c\<rparr>"
  by (induction n arbitrary: c) (simp_all add: push_front_both_def)

lemma LruCache_eq:
  "LruCache T capacity =
     \<lparr>buckets = replicate (bucket_count T capacity) None,
      arena = replicate capacity \<lparr>key = key_init T, val = val_init T, cached_hash = 0\<rparr>,
      bucket_list = rev [0..<capacity], usage_list = rev [0..<capacity]\<rparr>"
  by (simp add: LruCache_def fold_push_front_both Let_def map_replicate_const)

lemma bucket_count_DnsCache_2: "bucket_count (DnsCache h) 2 = 8"
  by (simp add: bucket_count_def DnsCache_def)

text \<open>The fresh cache of \<^verbatim>\<open>main\<close>, written out.\<close>

lemma fresh_cache_2:
  "LruCache (DnsCache h) 2 =
     \<lparr>buckets = [None, None, None, None, None, None, None, None],
      arena = [\<lparr>key = [], val = [], cached_hash = 0\<rparr>, \<lparr>key = [], val = [], cached_hash = 0\<rparr>],
      bucket_list = [1, 0], usage_list = [1, 0]\<rparr>"
  unfolding LruCache_eq bucket_count_DnsCache_2
  by (simp add: DnsCache_def numeral_eq_Suc)

section \<open>The invariant\<close>

lemma slist_from_rev_upt:
  "i < n \<Longrightarrow> slist_from (rev [0..<n]) (Some i) = rev [0..<Suc i]"
  by (induction n) (auto simp: slist_from_def less_Suc_eq)

lemma std_next_rev_upt:
  "i < n \<Longrightarrow> std_next (rev [0..<n]) (Some i) = (if i = 0 then None else Some (i - 1))"
  by (cases i) (simp_all add: std_next_def slist_from_rev_upt)

lemma set_slist_from: "set (slist_from l it) \<subseteq> set l"
  by (auto simp: slist_from_def split: option.splits dest: set_dropWhileD)

lemma find_node_Some:
  "find_node ar h k its = Some i \<Longrightarrow> i \<in> set its \<and> key (ar ! i) = k \<and> cached_hash (ar ! i) = h"
  by (induction its) (auto split: if_splits)

lemma lookup_Some:
  assumes "lookup T c k = Some i"
  shows "i \<in> set (bucket_list c)" "key (arena c ! i) = k" "cached_hash (arena c ! i) = bucket_of T c k"
  using find_node_Some[OF assms[unfolded lookup_def]] set_slist_from by fastforce+

lemma wf_LruCache: "well_formed (LruCache T capacity)"
  by (auto simp: well_formed_def LruCache_eq)

lemma bucket_of_less: "buckets c \<noteq> [] \<Longrightarrow> bucket_of T c k < length (buckets c)"
  by (simp add: bucket_of_def)

lemma old_bucket_head_Some:
  assumes "well_formed c" "lru < length (arena c)" "old_bucket_head c lru = Some j"
  shows "j < lru" "cached_hash (arena c ! j) = cached_hash (arena c ! lru)"
  using assms
  by (auto simp: old_bucket_head_def well_formed_def std_next_rev_upt split: option.splits if_splits)

lemma wf_update:
  assumes "well_formed c" "update T c k v = Inr c'"
  shows "well_formed c'"
proof (cases "lookup T c k")
  case (Some i)
  from lookup_Some(1)[OF Some] assms(1) have i: "i < length (arena c)" "i \<in> set (usage_list c)"
    by (auto simp: well_formed_def)
  from assms(2) Some have c': "c' = c\<lparr>arena := (arena c)[i := (arena c ! i)\<lparr>val := v\<rparr>],
                 usage_list := erase_push_back (usage_list c) i\<rparr>"
    by (auto simp: update_def split: if_splits)
  have ch: "cached_hash (arena c' ! j) = cached_hash (arena c ! j)" for j
    by (cases "j = i") (use i in \<open>auto simp: c'\<close>)
  have "\<forall>n \<in> set (arena c'). cached_hash n < length (buckets c')"
  proof
    fix n assume "n \<in> set (arena c')"
    then obtain j where j: "j < length (arena c)" "n = arena c' ! j"
      by (auto simp: in_set_conv_nth c')
    from assms(2) have "buckets c \<noteq> []"
      by (auto simp: update_def split: if_splits)
    with j(1) assms(1) have "cached_hash (arena c ! j) < length (buckets c)"
      by (simp add: well_formed_def)
    with ch[of j] j(2) show "cached_hash n < length (buckets c')" by (simp add: c')
  qed
  moreover have "distinct (usage_list c') \<and> set (usage_list c') = {0..<length (arena c')}"
    using assms(1) i unfolding c' well_formed_def erase_push_back_def
    by auto
  ultimately show ?thesis using assms(1) ch unfolding well_formed_def by (simp add: c')
next
  case None
  from assms(2) None obtain lru rest where u: "usage_list c = lru # rest"
    and old: "cached_hash (arena c ! lru) < length (buckets c)"
    and ne: "buckets c \<noteq> []"
    and c': "c' = c\<lparr>buckets :=
                              (buckets c)[cached_hash (arena c ! lru) := old_bucket_head c lru,
                                          bucket_of T c k := Some lru],
                            arena := (arena c)[lru :=
                              \<lparr>key = k, val = v, cached_hash = bucket_of T c k\<rparr>],
                            usage_list := rest @ [lru]\<rparr>"
    by (auto simp: update_def split: if_splits list.splits)
  from u assms(1) have lru: "lru < length (arena c)" by (auto simp: well_formed_def)
  note h = bucket_of_less[OF ne, of T k]
  have 1: "distinct (usage_list c') \<and> set (usage_list c') = {0..<length (arena c')}"
    using assms(1) u unfolding well_formed_def c' by auto
  have 2: "\<forall>n \<in> set (arena c'). cached_hash n < length (buckets c')"
    using assms(1) h unfolding well_formed_def c'
    by (auto dest!: set_update_subset_insert[THEN subsetD])
  have 3: "i < length (arena c') \<and> cached_hash (arena c' ! i) = b"
    if b: "b < length (buckets c')" and bi: "buckets c' ! b = Some i" for b i
  proof (cases "b = bucket_of T c k")
    case True
    with bi b lru show ?thesis by (simp add: c')
  next
    case nh: False
    show ?thesis
    proof (cases "b = cached_hash (arena c ! lru)")
      case True
      with nh bi b have "old_bucket_head c lru = Some i" by (simp add: c')
      from old_bucket_head_Some[OF assms(1) lru this] True lru show ?thesis
        by (simp add: c')
    next
      case False
      with nh bi b have "buckets c ! b = Some i" by (simp add: c')
      with assms(1) b have "i < length (arena c)" "cached_hash (arena c ! i) = b"
        by (auto simp: well_formed_def c')
      moreover from this False have "i \<noteq> lru" by auto
      ultimately show ?thesis by (simp add: c')
    qed
  qed
  show ?thesis unfolding well_formed_def using assms(1) 1 2 3 by (auto simp: c' well_formed_def)
qed

lemma wf_resolve:
  assumes "well_formed c" "resolve T c k = Inr (r, c')"
  shows "well_formed c'"
proof (cases "lookup T c k")
  case None
  with assms show ?thesis by (auto simp: resolve_def split: if_splits)
next
  case (Some i)
  from lookup_Some(1)[OF Some] assms(1) have i: "i \<in> set (usage_list c)"
    by (auto simp: well_formed_def)
  from assms(2) Some have c': "c' = c\<lparr>usage_list := erase_push_back (usage_list c) i\<rparr>"
    by (auto simp: resolve_def split: if_splits)
  show ?thesis using assms(1) i unfolding c' well_formed_def erase_push_back_def
    by auto
qed

lemma wf_run:
  "well_formed c \<Longrightarrow> run T c cs = Inr (rs, c') \<Longrightarrow> well_formed c'"
proof (induction cs arbitrary: c rs)
  case Nil
  then show ?case by simp
next
  case (Cons a cs)
  show ?case
  proof (cases a)
    case (Update k v)
    with Cons.prems obtain c1 where "update T c k v = Inr c1" "run T c1 cs = Inr (rs, c')"
      by (auto split: sum.splits)
    with Cons.IH wf_update[OF Cons.prems(1)] show ?thesis by blast
  next
    case (Resolve k)
    with Cons.prems obtain r c1 rs' where "resolve T c k = Inr (r, c1)" "run T c1 cs = Inr (rs', c')"
      by (auto split: sum.splits prod.splits)
    with Cons.IH wf_resolve[OF Cons.prems(1)] show ?thesis by blast
  qed
qed

lemma run_lengths:
  "run T c cs = Inr (rs, c') \<Longrightarrow> length (buckets c') = length (buckets c) \<and> length (arena c') = length (arena c)"
proof (induction cs arbitrary: c rs)
  case Nil
  then show ?case by simp
next
  case (Cons a cs)
  show ?case
  proof (cases a)
    case (Update k v)
    with Cons.prems obtain c1 where 1: "update T c k v = Inr c1" "run T c1 cs = Inr (rs, c')"
      by (auto split: sum.splits)
    from 1(1) have "length (buckets c1) = length (buckets c) \<and> length (arena c1) = length (arena c)"
      by (auto simp: update_def split: if_splits option.splits list.splits)
    with Cons.IH[OF 1(2)] show ?thesis by simp
  next
    case (Resolve k)
    with Cons.prems obtain r c1 rs' where 1: "resolve T c k = Inr (r, c1)" "run T c1 cs = Inr (rs', c')"
      by (auto split: sum.splits prod.splits)
    from 1(1) have "length (buckets c1) = length (buckets c) \<and> length (arena c1) = length (arena c)"
      by (auto simp: resolve_def split: if_splits option.splits)
    with Cons.IH[OF 1(2)] show ?thesis by simp
  qed
qed

lemma reach_wf: "run T (LruCache T capacity) cs = Inr (rs, c) \<Longrightarrow> well_formed c"
  using wf_run[OF wf_LruCache] by blast

lemma reach_lengths:
  "run T (LruCache T capacity) cs = Inr (rs, c) \<Longrightarrow>
     length (buckets c) = bucket_count T capacity \<and> length (arena c) = capacity"
  by (drule run_lengths) (simp add: LruCache_eq)

section \<open>Calls that are defined\<close>

lemma update_defined:
  assumes "well_formed c" "buckets c \<noteq> []" "arena c \<noteq> []"
  shows "\<exists>c'. update T c k v = Inr c'"
proof (cases "lookup T c k")
  case (Some i)
  with assms(2) show ?thesis by (simp add: update_def)
next
  case None
  from assms(1,3) have "set (usage_list c) \<noteq> {}" by (simp add: well_formed_def)
  then obtain lru rest where u: "usage_list c = lru # rest" by (cases "usage_list c") auto
  with assms(1) have "lru < length (arena c)" by (auto simp: well_formed_def)
  with assms(1,2) have "cached_hash (arena c ! lru) < length (buckets c)"
    by (simp add: well_formed_def)
  with None u assms(2) show ?thesis by (simp add: update_def)
qed

lemma resolve_defined:
  "buckets c \<noteq> [] \<Longrightarrow> \<exists>r c'. resolve T c k = Inr (r, c')"
  by (simp add: resolve_def split: option.splits)

lemma bucket_count_pos: "0 < bucket_count T capacity \<Longrightarrow> 0 < capacity"
  by (cases capacity) (simp_all add: bucket_count_def)

lemma update_fresh_defined:
  assumes "0 < bucket_count T capacity"
  shows "\<exists>c'. update T (LruCache T capacity) k v = Inr c'"
proof -
  from assms bucket_count_pos[OF assms]
  have "buckets (LruCache T capacity) \<noteq> []" "arena (LruCache T capacity) \<noteq> []"
    by (auto simp: LruCache_eq)
  from update_defined[OF wf_LruCache this] show ?thesis .
qed

section \<open>Construction\<close>

text \<open>
  C8, as claimed: constructing with capacity 0 fails with a construction error. It does not:
  the constructor has no check, vectors of no element are constructed without an
  allocation, and \<^verbatim>\<open>get_instance(0)\<close> returns a cache with no node and no bucket.
\<close>

theorem zero_capacity_constructs:
  "get_instance lp64 (DnsCache length) 0 =
     Inr \<lparr>buckets = [], arena = [], bucket_list = [], usage_list = []\<rparr>"
  by (simp add: get_instance_def vector_ctor_def bucket_count_def LruCache_eq)

text \<open>
  C8, amended: construction with capacity 0 succeeds, on every platform, and gives a cache
  with no node and no bucket, on which \<^verbatim>\<open>update\<close> and \<^verbatim>\<open>resolve\<close> are undefined by the
  remainder by zero of line 80 and line 114. For any capacity, construction has no error
  of its own: it fails only where a vector's constructor throws \<^verbatim>\<open>std::length_error\<close> or
  \<^verbatim>\<open>std::bad_alloc\<close>, and it does fail where the wrapped product \<^verbatim>\<open>capacity * LoadFactor\<close>
  or the capacity is above \<^verbatim>\<open>max_size()\<close>. Where both vectors are within \<^verbatim>\<open>max_size()\<close>
  and the allocator grants them, it succeeds, with \<open>capacity\<close> nodes and the wrapped
  product as the number of buckets; \<^verbatim>\<open>update\<close> on the fresh cache is then defined if
  that number is not 0.
\<close>

theorem construction_outcome:
  "get_instance P T 0 = Inr \<lparr>buckets = [], arena = [], bucket_list = [], usage_list = []\<rparr> \<and>
   update T (LruCache T 0) k v = Inl DivisionByZero \<and>
   resolve T (LruCache T 0) k = Inl DivisionByZero \<and>
   (get_instance P T arg = Inr (LruCache T (unat arg)) \<or>
    get_instance P T arg = Inl LengthError \<or> get_instance P T arg = Inl BadAlloc) \<and>
   (buckets_max_size P < bucket_count T (unat arg) \<or> arena_max_size P < unat arg
      \<longrightarrow> isl (get_instance P T arg)) \<and>
   (bucket_count T (unat arg) \<le> buckets_max_size P \<and> unat arg \<le> arena_max_size P \<and>
    buckets_alloc P (bucket_count T (unat arg)) \<and> arena_alloc P (unat arg)
      \<longrightarrow> get_instance P T arg = Inr (LruCache T (unat arg)) \<and>
          length (arena (LruCache T (unat arg))) = unat arg \<and>
          length (buckets (LruCache T (unat arg))) =
            (unat arg * load_factor T) mod 2 ^ 64 \<and>
          isl (update T (LruCache T (unat arg)) k v) = (bucket_count T (unat arg) = 0))"
proof -
  have 1: "get_instance P T 0 = Inr \<lparr>buckets = [], arena = [], bucket_list = [], usage_list = []\<rparr>"
    by (simp add: get_instance_def vector_ctor_def bucket_count_def LruCache_eq)
  have 2: "update T (LruCache T 0) k v = Inl DivisionByZero"
    by (simp add: update_def LruCache_eq bucket_count_def)
  have 3: "resolve T (LruCache T 0) k = Inl DivisionByZero"
    by (simp add: resolve_def LruCache_eq bucket_count_def)
  have 4: "get_instance P T arg = Inr (LruCache T (unat arg)) \<or>
    get_instance P T arg = Inl LengthError \<or> get_instance P T arg = Inl BadAlloc"
    by (simp add: get_instance_def vector_ctor_def)
  have 5: "isl (get_instance P T arg)"
    if "buckets_max_size P < bucket_count T (unat arg) \<or> arena_max_size P < unat arg"
    using that by (auto simp: get_instance_def vector_ctor_def)
  have 6: "get_instance P T arg = Inr (LruCache T (unat arg))"
    if "bucket_count T (unat arg) \<le> buckets_max_size P \<and> unat arg \<le> arena_max_size P \<and>
        buckets_alloc P (bucket_count T (unat arg)) \<and> arena_alloc P (unat arg)"
    using that by (auto simp: get_instance_def vector_ctor_def)
  have 7: "length (arena (LruCache T (unat arg))) = unat arg"
    by (simp add: LruCache_eq)
  have 8: "length (buckets (LruCache T (unat arg))) = (unat arg * load_factor T) mod 2 ^ 64"
    by (simp add: LruCache_eq bucket_count_def)
  have 9: "isl (update T (LruCache T (unat arg)) k v) = (bucket_count T (unat arg) = 0)"
  proof (cases "bucket_count T (unat arg) = 0")
    case True
    then show ?thesis by (simp add: update_def LruCache_eq)
  next
    case False
    then have "0 < bucket_count T (unat arg)" by simp
    from update_fresh_defined[OF this, of k v] False show ?thesis by auto
  qed
  from 1 2 3 4 5 6 7 8 9 show ?thesis by blast
qed

theorem construction_outcome_witness:
  "bucket_count (DnsCache length) (unat (2 :: 64 word)) \<le> buckets_max_size lp64 \<and>
   unat (2 :: 64 word) \<le> arena_max_size lp64 \<and>
   buckets_alloc lp64 (bucket_count (DnsCache length) (unat (2 :: 64 word))) \<and>
   arena_alloc lp64 (unat (2 :: 64 word)) \<and>
   get_instance lp64 (DnsCache length) 2 = Inr (LruCache (DnsCache length) 2) \<and>
   length (buckets (LruCache (DnsCache length) 2)) = 8 \<and>
   arena_max_size lp64 < unat (4611686018427387904 :: 64 word) \<and>
   bucket_count (DnsCache length) (unat (4611686018427387904 :: 64 word)) = 0 \<and>
   isl (get_instance lp64 (DnsCache length) 4611686018427387904)"
proof -
  let ?T = "DnsCache length"
  have u2: "unat (2 :: 64 word) = 2" by simp
  have b2: "bucket_count ?T 2 = 8" by (simp add: bucket_count_def DnsCache_def)
  have 1: "bucket_count ?T (unat (2 :: 64 word)) \<le> buckets_max_size lp64"
    by (simp add: u2 b2 lp64_def)
  have 2: "unat (2 :: 64 word) \<le> arena_max_size lp64" by (simp add: lp64_def)
  have 3: "buckets_alloc lp64 (bucket_count ?T (unat (2 :: 64 word)))" by (simp add: lp64_def)
  have 4: "arena_alloc lp64 (unat (2 :: 64 word))" by (simp add: lp64_def)
  have ub: "unat (4611686018427387904 :: 64 word) = 4611686018427387904" by simp
  have 5: "arena_max_size lp64 < unat (4611686018427387904 :: 64 word)"
    by (simp add: ub lp64_def)
  have 6: "bucket_count ?T (unat (4611686018427387904 :: 64 word)) = 0"
    by (simp add: ub bucket_count_def DnsCache_def)
  note t2 = construction_outcome[of lp64 ?T _ _ 2]
  note tb = construction_outcome[of lp64 ?T _ _ 4611686018427387904]
  from t2 1 2 3 4 have 7: "get_instance lp64 ?T 2 = Inr (LruCache ?T 2)"
    unfolding u2 by blast
  have 8: "length (buckets (LruCache ?T 2)) = 8" by (simp add: LruCache_eq b2)
  from tb 5 have 9: "isl (get_instance lp64 ?T 4611686018427387904)" by blast
  show ?thesis
    by (intro conjI) (fact 1 2 3 4 5 6 7 8 9)+
qed

section \<open>What \<^verbatim>\<open>resolve\<close> returns\<close>

text \<open>
  C9: \<^verbatim>\<open>resolve\<close> of a key that the loop does not find returns \<^verbatim>\<open>Val()\<close> and leaves the
  cache as it was: every entry of the bucket table and the key, value and cached hash of
  every node (and the usage list as well). The bucket table must not be empty, or line 114
  is undefined.
\<close>

theorem resolve_miss_frame:
  assumes "lookup T c k = None" and "buckets c \<noteq> []"
  shows "\<exists>r c'. resolve T c k = Inr (r, c') \<and> c' = c \<and> buckets c' = buckets c \<and>
           map key (arena c') = map key (arena c) \<and> map val (arena c') = map val (arena c) \<and>
           map cached_hash (arena c') = map cached_hash (arena c)"
  using assms by (simp add: resolve_def)

theorem resolve_miss_frame_witness:
  "lookup (DnsCache length) (LruCache (DnsCache length) 2) ''abc'' = None \<and>
   buckets (LruCache (DnsCache length) 2) \<noteq> [] \<and>
   resolve (DnsCache length) (LruCache (DnsCache length) 2) ''abc'' =
     Inr ([], LruCache (DnsCache length) 2)"
proof -
  have 1: "lookup (DnsCache length) (LruCache (DnsCache length) 2) ''abc'' = None"
    unfolding fresh_cache_2 by code_simp
  have 2: "buckets (LruCache (DnsCache length) 2) \<noteq> []"
    unfolding fresh_cache_2 by code_simp
  from resolve_miss_frame[OF 1 2] 1 2 show ?thesis
    by (auto simp: resolve_def DnsCache_def)
qed

text \<open>
  C7, as claimed: \<^verbatim>\<open>resolve\<close> tells a miss from a hit on a stored default value. It does
  not: on the fresh cache of capacity 2 \<^verbatim>\<open>resolve("abc")\<close> misses and returns the empty
  string, and after \<^verbatim>\<open>update("abc", "")\<close> it hits and returns the empty string.
\<close>

theorem miss_returns_what_a_hit_returns:
  "resolve (DnsCache length) (LruCache (DnsCache length) 2) ''abc'' =
     Inr ([], LruCache (DnsCache length) 2) \<and>
   lookup (DnsCache length) (LruCache (DnsCache length) 2) ''abc'' = None \<and>
   update (DnsCache length) (LruCache (DnsCache length) 2) ''abc'' [] =
     Inr \<lparr>buckets = [Some 0, None, None, Some 1, None, None, None, None],
          arena = [\<lparr>key = [], val = [], cached_hash = 0\<rparr>,
                   \<lparr>key = ''abc'', val = [], cached_hash = 3\<rparr>],
          bucket_list = [1, 0], usage_list = [0, 1]\<rparr> \<and>
   lookup (DnsCache length)
     \<lparr>buckets = [Some 0, None, None, Some 1, None, None, None, None],
      arena = [\<lparr>key = [], val = [], cached_hash = 0\<rparr>,
               \<lparr>key = ''abc'', val = [], cached_hash = 3\<rparr>],
      bucket_list = [1, 0], usage_list = [0, 1]\<rparr> ''abc'' = Some 1 \<and>
   resolve (DnsCache length)
     \<lparr>buckets = [Some 0, None, None, Some 1, None, None, None, None],
      arena = [\<lparr>key = [], val = [], cached_hash = 0\<rparr>,
               \<lparr>key = ''abc'', val = [], cached_hash = 3\<rparr>],
      bucket_list = [1, 0], usage_list = [0, 1]\<rparr> ''abc'' =
     Inr ([], \<lparr>buckets = [Some 0, None, None, Some 1, None, None, None, None],
               arena = [\<lparr>key = [], val = [], cached_hash = 0\<rparr>,
                        \<lparr>key = ''abc'', val = [], cached_hash = 3\<rparr>],
               bucket_list = [1, 0], usage_list = [0, 1]\<rparr>)"
  unfolding fresh_cache_2 by code_simp

text \<open>
  C7, amended: \<^verbatim>\<open>resolve\<close> returns a plain value, with no mark of hit or miss: the value
  of the node that the loop found, a node that holds the key, and \<^verbatim>\<open>Val()\<close> when the loop
  found none.
\<close>

theorem resolve_value:
  assumes "buckets c \<noteq> []"
  shows "\<exists>c'. resolve T c k =
           Inr (case lookup T c k of None \<Rightarrow> val_init T | Some i \<Rightarrow> val (arena c ! i), c') \<and>
         (\<forall>i. lookup T c k = Some i \<longrightarrow> key (arena c ! i) = k)"
  using assms by (auto simp: resolve_def lookup_Some(2) split: option.splits)

theorem resolve_value_witness:
  "buckets \<lparr>buckets = [Some 0, None, None, Some 1, None, None, None, None],
            arena = [\<lparr>key = [], val = [], cached_hash = 0\<rparr>,
                     \<lparr>key = ''abc'', val = ''ABC'', cached_hash = 3\<rparr>],
            bucket_list = [1, 0], usage_list = [0, 1]\<rparr> \<noteq> [] \<and>
   lookup (DnsCache length)
     \<lparr>buckets = [Some 0, None, None, Some 1, None, None, None, None],
      arena = [\<lparr>key = [], val = [], cached_hash = 0\<rparr>,
               \<lparr>key = ''abc'', val = ''ABC'', cached_hash = 3\<rparr>],
      bucket_list = [1, 0], usage_list = [0, 1]\<rparr> ''abc'' = Some 1 \<and>
   (\<exists>c'. resolve (DnsCache length)
           \<lparr>buckets = [Some 0, None, None, Some 1, None, None, None, None],
            arena = [\<lparr>key = [], val = [], cached_hash = 0\<rparr>,
                     \<lparr>key = ''abc'', val = ''ABC'', cached_hash = 3\<rparr>],
            bucket_list = [1, 0], usage_list = [0, 1]\<rparr> ''abc'' = Inr (''ABC'', c')) \<and>
   key ([\<lparr>key = [], val = [], cached_hash = 0\<rparr>,
         \<lparr>key = ''abc'', val = ''ABC'', cached_hash = 3::nat\<rparr>] ! 1) = ''abc''"
proof -
  let ?c = "\<lparr>buckets = [Some 0, None, None, Some 1, None, None, None, None],
            arena = [\<lparr>key = [], val = [], cached_hash = 0\<rparr>,
                     \<lparr>key = ''abc'', val = ''ABC'', cached_hash = 3\<rparr>],
            bucket_list = [1, 0], usage_list = [0, 1]\<rparr> :: (string, string) cache"
  have 1: "buckets ?c \<noteq> []" by simp
  have 2: "lookup (DnsCache length) ?c ''abc'' = Some 1" unfolding fresh_cache_2 by code_simp
  from resolve_value[OF 1, of "DnsCache length" "''abc''"] 2
  have "(\<exists>c'. resolve (DnsCache length) ?c ''abc'' = Inr (''ABC'', c')) \<and>
        key (arena ?c ! 1) = ''abc''"
    by simp
  with 1 2 show ?thesis by simp
qed

section \<open>Round trip\<close>

lemma find_node_cong:
  "(\<And>j. j \<in> set its \<Longrightarrow> cached_hash (ar' ! j) = cached_hash (ar ! j) \<and> key (ar' ! j) = key (ar ! j))
   \<Longrightarrow> find_node ar' h k its = find_node ar h k its"
  by (induction its) auto

lemma nth_val_update:
  "cached_hash (ar[i := (ar ! i)\<lparr>val := v\<rparr>] ! j) = cached_hash (ar ! j) \<and>
   key (ar[i := (ar ! i)\<lparr>val := v\<rparr>] ! j) = key (ar ! j)"
proof (cases "i < length ar")
  case True
  then show ?thesis by (cases "j = i") auto
next
  case False
  then have "ar[i := (ar ! i)\<lparr>val := v\<rparr>] = ar" by (intro list_update_beyond) simp
  then show ?thesis by simp
qed

lemma lookup_val_update:
  "lookup T (c\<lparr>arena := (arena c)[i := (arena c ! i)\<lparr>val := v\<rparr>], usage_list := u\<rparr>) k = lookup T c k"
  unfolding lookup_def bucket_of_def
  by (simp, rule find_node_cong) (simp add: nth_val_update)

lemma wf_lookup_less: "well_formed c \<Longrightarrow> lookup T c k = Some i \<Longrightarrow> i < length (arena c)"
  by (drule lookup_Some(1)) (simp add: well_formed_def)

lemma update_hit:
  "buckets c \<noteq> [] \<Longrightarrow> lookup T c k = Some i \<Longrightarrow>
   update T c k v = Inr (c\<lparr>arena := (arena c)[i := (arena c ! i)\<lparr>val := v\<rparr>],
                          usage_list := erase_push_back (usage_list c) i\<rparr>)"
  by (simp add: update_def)

lemma update_miss:
  "well_formed c \<Longrightarrow> buckets c \<noteq> [] \<Longrightarrow> lookup T c k = None \<Longrightarrow> usage_list c = lru # rest \<Longrightarrow>
   update T c k v =
     Inr (c\<lparr>buckets := (buckets c)[cached_hash (arena c ! lru) := old_bucket_head c lru,
                                  bucket_of T c k := Some lru],
            arena := (arena c)[lru := \<lparr>key = k, val = v, cached_hash = bucket_of T c k\<rparr>],
            usage_list := rest @ [lru]\<rparr>)"
proof -
  assume a: "well_formed c" "buckets c \<noteq> []" "lookup T c k = None" "usage_list c = lru # rest"
  then have "lru < length (arena c)" by (auto simp: well_formed_def)
  with a(1,2) have "cached_hash (arena c ! lru) < length (buckets c)" by (simp add: well_formed_def)
  with a show ?thesis by (simp add: update_def)
qed

lemma lookup_after_miss:
  assumes "well_formed c" "buckets c \<noteq> []" "lru < length (arena c)"
  shows "lookup T (c\<lparr>buckets := (buckets c)[old := x, bucket_of T c k := Some lru],
            arena := (arena c)[lru := \<lparr>key = k, val = v, cached_hash = bucket_of T c k\<rparr>],
            usage_list := u\<rparr>) k = Some lru"
proof -
  have h: "bucket_of T c k < length (buckets c)" using assms(2) by (rule bucket_of_less)
  from assms(1) have bl: "bucket_list c = rev [0..<length (arena c)]" by (simp add: well_formed_def)
  show ?thesis using h assms(3)
    by (simp add: lookup_def bucket_of_def bl slist_from_rev_upt)
qed

lemma update_then_resolve:
  assumes "well_formed c" "buckets c \<noteq> []" "arena c \<noteq> []"
  shows "\<exists>c' c''. update T c k v = Inr c' \<and> lookup T c' k \<noteq> None \<and> resolve T c' k = Inr (v, c'')"
proof (cases "lookup T c k")
  case (Some i)
  let ?c' = "c\<lparr>arena := (arena c)[i := (arena c ! i)\<lparr>val := v\<rparr>],
                          usage_list := erase_push_back (usage_list c) i\<rparr>"
  have 1: "update T c k v = Inr ?c'" using assms(2) Some by (rule update_hit)
  have 2: "lookup T ?c' k = Some i" using Some by (simp add: lookup_val_update)
  have 3: "i < length (arena c)" using assms(1) Some by (rule wf_lookup_less)
  from 2 3 assms(2) have "\<exists>c''. resolve T ?c' k = Inr (v, c'')"
    by (simp add: resolve_def)
  with 1 2 show ?thesis by auto
next
  case None
  from assms(1,3) have "set (usage_list c) \<noteq> {}" by (simp add: well_formed_def)
  then obtain lru rest where u: "usage_list c = lru # rest" by (cases "usage_list c") auto
  with assms(1) have lru: "lru < length (arena c)" by (auto simp: well_formed_def)
  note 1 = update_miss[OF assms(1,2) None u, of v]
  note 2 = lookup_after_miss[OF assms(1,2) lru, where T = T and old = "cached_hash (arena c ! lru)"
      and x = "old_bucket_head c lru" and k = k and v = v and u = "rest @ [lru]"]
  from 2 lru assms(2) have "\<exists>c''. resolve T (c\<lparr>buckets := (buckets c)[cached_hash (arena c ! lru) := old_bucket_head c lru,
                                  bucket_of T c k := Some lru],
            arena := (arena c)[lru := \<lparr>key = k, val = v, cached_hash = bucket_of T c k\<rparr>],
            usage_list := rest @ [lru]\<rparr>) k = Inr (v, c'')"
    by (simp add: resolve_def)
  with 1 2 show ?thesis by auto
qed

text \<open>
  C4: on a cache that a run of calls has reached from construction and whose bucket table
  is not empty, \<^verbatim>\<open>update(k, v)\<close> is defined, and \<^verbatim>\<open>resolve(k)\<close> right after it finds the
  key and returns \<open>v\<close>. The table is empty when the product \<^verbatim>\<open>capacity * LoadFactor\<close> of
  line 58 is 0 in \<^verbatim>\<open>size_t\<close>; line 80 then divides by zero.
\<close>

theorem round_trip:
  assumes "run T (LruCache T capacity) cs = Inr (rs, c)" and "buckets c \<noteq> []"
  shows "\<exists>c' c''. update T c k v = Inr c' \<and> lookup T c' k \<noteq> None \<and> resolve T c' k = Inr (v, c'')"
proof -
  from reach_lengths[OF assms(1)]
  have l: "length (buckets c) = bucket_count T capacity" "length (arena c) = capacity"
    by simp_all
  from assms(2) have "0 < length (buckets c)" by simp
  with l(1) have "0 < bucket_count T capacity" by simp
  then have "0 < capacity" by (rule bucket_count_pos)
  with l(2) have "arena c \<noteq> []" by auto
  from update_then_resolve[OF reach_wf[OF assms(1)] assms(2) this] show ?thesis .
qed

theorem round_trip_witness:
  "run (DnsCache length) (LruCache (DnsCache length) 2) [Update ''a'' ''A'', Update ''bb'' ''B'', Resolve ''a''] =
     Inr ([(True, ''A'')], \<lparr>buckets = [None, Some 1, Some 0, None, None, None, None, None],
         arena = [\<lparr>key = ''bb'', val = ''B'', cached_hash = 2\<rparr>, \<lparr>key = ''a'', val = ''A'', cached_hash = 1\<rparr>],
         bucket_list = [1, 0], usage_list = [0, 1]\<rparr>) \<and>
   buckets \<lparr>buckets = [None, Some 1, Some 0, None, None, None, None, None],
         arena = [\<lparr>key = ''bb'', val = ''B'', cached_hash = 2\<rparr>, \<lparr>key = ''a'', val = ''A'', cached_hash = 1::nat\<rparr>],
         bucket_list = [1, 0], usage_list = [0, 1]\<rparr> \<noteq> [] \<and>
   (\<exists>c' c''. update (DnsCache length) \<lparr>buckets = [None, Some 1, Some 0, None, None, None, None, None],
         arena = [\<lparr>key = ''bb'', val = ''B'', cached_hash = 2\<rparr>, \<lparr>key = ''a'', val = ''A'', cached_hash = 1\<rparr>],
         bucket_list = [1, 0], usage_list = [0, 1]\<rparr> ''a'' ''A2'' = Inr c' \<and> lookup (DnsCache length) c' ''a'' \<noteq> None \<and> resolve (DnsCache length) c' ''a'' = Inr (''A2'', c''))"
proof -
  let ?c = "\<lparr>buckets = [None, Some 1, Some 0, None, None, None, None, None],
         arena = [\<lparr>key = ''bb'', val = ''B'', cached_hash = 2\<rparr>, \<lparr>key = ''a'', val = ''A'', cached_hash = 1\<rparr>],
         bucket_list = [1, 0], usage_list = [0, 1]\<rparr> :: (string, string) cache"
  have 1: "run (DnsCache length) (LruCache (DnsCache length) 2) [Update ''a'' ''A'', Update ''bb'' ''B'', Resolve ''a''] =
     Inr ([(True, ''A'')], ?c)"
    unfolding fresh_cache_2 by code_simp
  have 2: "buckets ?c \<noteq> []" by simp
  from round_trip[OF 1 2, of "''a''" "''A2''"] 1 2 show ?thesis by blast
qed

section \<open>The default key after the first eviction\<close>

lemma lookup_fresh:
  assumes "0 < bucket_count T capacity"
  shows "lookup T (LruCache T capacity) k = None"
proof -
  from assms have "key_hash T k mod bucket_count T capacity < bucket_count T capacity"
    by simp
  then show ?thesis
    by (simp add: lookup_def bucket_of_def LruCache_eq slist_from_def)
qed

lemma first_update:
  assumes "0 < bucket_count T (Suc (Suc n))"
  shows "update T (LruCache T (Suc (Suc n))) k v =
     Inr \<lparr>buckets = (replicate (bucket_count T (Suc (Suc n))) None)
                      [0 := Some n, key_hash T k mod bucket_count T (Suc (Suc n)) := Some (Suc n)],
          arena = (replicate (Suc (Suc n)) \<lparr>key = key_init T, val = val_init T, cached_hash = 0\<rparr>)
                      [Suc n := \<lparr>key = k, val = v,
                                 cached_hash = key_hash T k mod bucket_count T (Suc (Suc n))\<rparr>],
          bucket_list = rev [0..<Suc (Suc n)],
          usage_list = rev [0..<Suc n] @ [Suc n]\<rparr>"
proof -
  let ?c = "LruCache T (Suc (Suc n))"
  have ne: "buckets ?c \<noteq> []" using assms by (simp add: LruCache_eq)
  have u: "usage_list ?c = Suc n # rev [0..<Suc n]" by (simp add: LruCache_eq)
  have o: "old_bucket_head ?c (Suc n) = Some n"
    by (simp add: old_bucket_head_def LruCache_eq std_next_rev_upt[of "Suc n" "Suc (Suc n)", simplified]
        del: replicate.simps)
  have l: "lookup T ?c k = None" using assms by (rule lookup_fresh)
  show ?thesis
    unfolding update_miss[OF wf_LruCache ne l u] o
    by (simp add: LruCache_eq bucket_of_def del: replicate.simps)
qed

text \<open>
  C10: on a fresh cache of capacity at least 2 with a bucket table that is not empty (its
  size is the product of line 58 in \<^verbatim>\<open>size_t\<close>), one \<^verbatim>\<open>update\<close> with a key whose bucket is
  not 0 makes bucket 0 point at the node next to the victim, a node that construction
  made and nothing has written. If the default key hashes to bucket 0, \<^verbatim>\<open>resolve\<close> of the
  default key then finds that node, returns the default value as a hit, and moves the
  node to the back of the usage list.
\<close>

theorem default_key_hit_after_first_update:
  assumes "2 \<le> capacity" and "0 < bucket_count T capacity"
    and "key_hash T (key_init T) mod bucket_count T capacity = 0"
    and "key_hash T k mod bucket_count T capacity \<noteq> 0"
  shows "\<exists>c c'. update T (LruCache T capacity) k v = Inr c \<and>
           k \<noteq> key_init T \<and>
           lookup T (LruCache T capacity) (key_init T) = None \<and>
           buckets (LruCache T capacity) ! 0 = None \<and>
           buckets c ! 0 = Some (capacity - 2) \<and>
           lookup T c (key_init T) = Some (capacity - 2) \<and>
           arena c ! (capacity - 2) = arena (LruCache T capacity) ! (capacity - 2) \<and>
           arena c ! (capacity - 2) = \<lparr>key = key_init T, val = val_init T, cached_hash = 0\<rparr> \<and>
           resolve T c (key_init T) = Inr (val_init T, c') \<and>
           hd (usage_list c) = capacity - 2 \<and>
           last (usage_list c') = capacity - 2"
proof -
  from assms(1) obtain n where n: "capacity = Suc (Suc n)"
    by (metis le_Suc_ex add_2_eq_Suc)
  let ?N = "bucket_count T (Suc (Suc n))"
  let ?h = "key_hash T k mod ?N"
  let ?d = "\<lparr>key = key_init T, val = val_init T, cached_hash = 0\<rparr>"
  define c where "c = \<lparr>buckets = (replicate ?N None)[0 := Some n, ?h := Some (Suc n)],
          arena = (replicate (Suc (Suc n)) ?d)[Suc n := \<lparr>key = k, val = v, cached_hash = ?h\<rparr>],
          bucket_list = rev [0..<Suc (Suc n)],
          usage_list = rev [0..<Suc n] @ [Suc n]\<rparr>"
  define c' where "c' = c\<lparr>usage_list := erase_push_back (usage_list c) n\<rparr>"
  have N: "0 < ?N" using assms(2) unfolding n .
  have h: "?h \<noteq> 0" "?h < ?N" using assms(4) N unfolding n by (blast, simp)
  have 0: "lookup T (LruCache T capacity) (key_init T) = None"
    using N unfolding n by (rule lookup_fresh)
  have 1: "update T (LruCache T capacity) k v = Inr c"
    unfolding n c_def using N by (rule first_update)
  have 2: "k \<noteq> key_init T" using assms(3,4) by auto
  have b: "bucket_of T c (key_init T) = 0"
    using assms(3) unfolding n by (simp add: bucket_of_def c_def)
  have b0: "buckets c ! 0 = Some n" using h N by (simp add: c_def)
  have sl: "slist_from (bucket_list c) (Some n) = n # rev [0..<n]"
    by (simp add: slist_from_def c_def)
  have 4: "arena c ! n = ?d" by (simp add: c_def del: replicate.simps)
  have 3: "lookup T c (key_init T) = Some n"
    unfolding lookup_def b b0 sl by (simp add: 4)
  have 5: "arena (LruCache T capacity) ! n = ?d"
    unfolding n by (simp add: LruCache_eq del: replicate.simps)
  have ne: "buckets c \<noteq> []" using N by (simp add: c_def)
  have 6: "resolve T c (key_init T) = Inr (val_init T, c')"
    using ne 3 by (simp add: resolve_def 4 c'_def)
  have 7: "hd (usage_list c) = n" by (simp add: c_def)
  have 8: "last (usage_list c') = n"
    by (simp add: erase_push_back_def c'_def)
  have 9: "buckets (LruCache T capacity) ! 0 = None"
    using N unfolding n by (simp add: LruCache_eq)
  have "capacity - 2 = n" by (simp add: n)
  with 0 1 2 3 4 5 6 7 8 9 b0 show ?thesis
    by (intro exI[of _ c] exI[of _ c']) simp
qed

theorem default_key_hit_after_first_update_witness:
  "(2::nat) \<le> 2 \<and> 0 < bucket_count (DnsCache length) 2 \<and>
   key_hash (DnsCache length) (key_init (DnsCache length)) mod bucket_count (DnsCache length) 2 = 0 \<and>
   key_hash (DnsCache length) ''abc'' mod bucket_count (DnsCache length) 2 \<noteq> 0 \<and>
   (\<exists>c c'. update (DnsCache length) (LruCache (DnsCache length) 2) ''abc'' ''ABC'' = Inr c \<and>
      lookup (DnsCache length) c [] = Some 0 \<and>
      arena c ! 0 = \<lparr>key = [], val = [], cached_hash = 0\<rparr> \<and>
      resolve (DnsCache length) c [] = Inr ([], c') \<and>
      hd (usage_list c) = 0 \<and> last (usage_list c') = 0)"
proof -
  have 1: "(2::nat) \<le> 2" by simp
  have 2: "0 < bucket_count (DnsCache length) 2" by (simp add: bucket_count_DnsCache_2)
  have 3: "key_hash (DnsCache length) (key_init (DnsCache length)) mod bucket_count (DnsCache length) 2 = 0"
    by (simp add: bucket_count_DnsCache_2) (simp add: DnsCache_def)
  have 4: "key_hash (DnsCache length) ''abc'' mod bucket_count (DnsCache length) 2 \<noteq> 0"
    by (simp add: bucket_count_DnsCache_2) (simp add: DnsCache_def)
  from default_key_hit_after_first_update[OF 1 2 3 4, of "''ABC''"]
  obtain c c' where "update (DnsCache length) (LruCache (DnsCache length) 2) ''abc'' ''ABC'' = Inr c"
      "lookup (DnsCache length) c (key_init (DnsCache length)) = Some (2 - 2)"
      "arena c ! (2 - 2) = \<lparr>key = key_init (DnsCache length), val = val_init (DnsCache length), cached_hash = 0\<rparr>"
      "resolve (DnsCache length) c (key_init (DnsCache length)) = Inr (val_init (DnsCache length), c')"
      "hd (usage_list c) = 2 - 2" "last (usage_list c') = 2 - 2"
    by blast
  then have "update (DnsCache length) (LruCache (DnsCache length) 2) ''abc'' ''ABC'' = Inr c \<and>
      lookup (DnsCache length) c [] = Some 0 \<and>
      arena c ! 0 = \<lparr>key = [], val = [], cached_hash = 0\<rparr> \<and>
      resolve (DnsCache length) c [] = Inr ([], c') \<and>
      hd (usage_list c) = 0 \<and> last (usage_list c') = 0"
    by (simp add: DnsCache_def)
  with 1 2 3 4 show ?thesis by blast
qed

section \<open>The results of the basic test\<close>

lemma run_Update:
  "update T c k v = Inr c' \<Longrightarrow> results (run T c (Update k v # cs)) = results (run T c' cs)"
  by simp

lemma run_Resolve:
  "resolve T c k = Inr (r, c') \<Longrightarrow> results (run T c' cs) = Inr rs \<Longrightarrow> lookup T c k = l \<Longrightarrow>
   results (run T c (Resolve k # cs)) = Inr ((l \<noteq> None, r) # rs)"
  by (auto simp: results_def split: sum.splits)

text \<open>The loop on a cache of two nodes.\<close>

lemma lookup_two:
  "lookup T \<lparr>buckets = B, arena = [n0, n1], bucket_list = [Suc 0, 0], usage_list = u\<rparr> k =
     (case B ! (key_hash T k mod length B) of
        None \<Rightarrow> None
      | Some j \<Rightarrow>
          if j = Suc 0 then
            (if cached_hash n1 = key_hash T k mod length B
             then (if k = key n1 then Some (Suc 0)
                   else if cached_hash n0 = key_hash T k mod length B
                        then (if k = key n0 then Some 0 else None) else None)
             else None)
          else if j = 0 then
            (if cached_hash n0 = key_hash T k mod length B
             then (if k = key n0 then Some 0 else None) else None)
          else None)"
proof (cases "B ! (key_hash T k mod length B)")
  case None
  then show ?thesis by (simp add: lookup_def bucket_of_def slist_from_def)
next
  case (Some j)
  consider "j = Suc 0" | "j = 0" | "j \<noteq> Suc 0" "j \<noteq> 0" by blast
  then show ?thesis
  proof cases
    case 1
    with Some show ?thesis by (simp add: lookup_def bucket_of_def slist_from_def)
  next
    case 2
    with Some show ?thesis by (simp add: lookup_def bucket_of_def slist_from_def)
  next
    case 3
    then have "dropWhile (\<lambda>i. i \<noteq> j) [Suc 0, 0] = []" by auto
    with Some 3 show ?thesis by (simp add: lookup_def bucket_of_def slist_from_def)
  qed
qed

lemma old_bucket_head_two:
  "old_bucket_head \<lparr>buckets = B, arena = [n0, n1], bucket_list = [Suc 0, 0], usage_list = u\<rparr> 0 = None"
  "old_bucket_head \<lparr>buckets = B, arena = [n0, n1], bucket_list = [Suc 0, 0], usage_list = u\<rparr> (Suc 0) =
     (if cached_hash n0 \<noteq> cached_hash n1 then None else Some 0)"
  by (simp_all add: old_bucket_head_def std_next_def slist_from_def)

lemma update_two_miss:
  assumes "lookup T \<lparr>buckets = B, arena = [n0, n1], bucket_list = [Suc 0, 0], usage_list = [l, m]\<rparr> k = None"
    and "B \<noteq> []" and "cached_hash ([n0, n1] ! l) < length B"
  shows "update T \<lparr>buckets = B, arena = [n0, n1], bucket_list = [Suc 0, 0], usage_list = [l, m]\<rparr> k v =
     Inr \<lparr>buckets = B[cached_hash ([n0, n1] ! l) :=
              old_bucket_head \<lparr>buckets = B, arena = [n0, n1], bucket_list = [Suc 0, 0], usage_list = [l, m]\<rparr> l,
              key_hash T k mod length B := Some l],
          arena = [n0, n1][l := \<lparr>key = k, val = v, cached_hash = key_hash T k mod length B\<rparr>],
          bucket_list = [Suc 0, 0], usage_list = [m, l]\<rparr>"
  using assms by (simp add: update_def bucket_of_def)

lemma update_two_hit:
  assumes "lookup T \<lparr>buckets = B, arena = [n0, n1], bucket_list = [Suc 0, 0], usage_list = u\<rparr> k = Some i"
    and "B \<noteq> []"
  shows "update T \<lparr>buckets = B, arena = [n0, n1], bucket_list = [Suc 0, 0], usage_list = u\<rparr> k v =
     Inr \<lparr>buckets = B, arena = [n0, n1][i := ([n0, n1] ! i)\<lparr>val := v\<rparr>],
          bucket_list = [Suc 0, 0], usage_list = remove1 i u @ [i]\<rparr>"
  using assms by (simp add: update_def erase_push_back_def)

lemma resolve_two_hit:
  assumes "lookup T \<lparr>buckets = B, arena = [n0, n1], bucket_list = [Suc 0, 0], usage_list = u\<rparr> k = Some i"
    and "B \<noteq> []"
  shows "resolve T \<lparr>buckets = B, arena = [n0, n1], bucket_list = [Suc 0, 0], usage_list = u\<rparr> k =
     Inr (val ([n0, n1] ! i), \<lparr>buckets = B, arena = [n0, n1],
          bucket_list = [Suc 0, 0], usage_list = remove1 i u @ [i]\<rparr>)"
  using assms by (simp add: resolve_def erase_push_back_def)

lemma resolve_two_miss:
  assumes "lookup T c k = None" and "buckets c \<noteq> []"
  shows "resolve T c k = Inr (val_init T, c)"
  using assms by (simp add: resolve_def)


text \<open>
  C3: the basic test on a cache of capacity 2. The hash function is a parameter. When the
  bucket of \<^verbatim>\<open>"abc"\<close> is not 0 and is neither the bucket of \<^verbatim>\<open>"def"\<close> nor that of
  \<^verbatim>\<open>"qwe"\<close>, the ten \<^verbatim>\<open>resolve\<close> calls give, in order: hit \<^verbatim>\<open>"ABC"\<close>, hit \<^verbatim>\<open>"DEF"\<close>, hit
  \<^verbatim>\<open>"DEF"\<close>, hit \<^verbatim>\<open>"ABC!"\<close>, hit \<^verbatim>\<open>"ABC!"\<close>, hit \<^verbatim>\<open>"QWE"\<close>, miss, hit \<^verbatim>\<open>"QWE"\<close>, hit
  \<^verbatim>\<open>"IOP"\<close>, miss. A miss returns the empty string, which is \<^verbatim>\<open>Val()\<close>.
\<close>

theorem basic_test_results:
  assumes "h ''abc'' mod 8 \<noteq> 0"
    and "h ''abc'' mod 8 \<noteq> h ''def'' mod 8"
    and "h ''abc'' mod 8 \<noteq> h ''qwe'' mod 8"
  shows "results (run (DnsCache h) (LruCache (DnsCache h) 2) basic_test) =
    Inr [(True, ''ABC''), (True, ''DEF''), (True, ''DEF''), (True, ''ABC!''), (True, ''ABC!''),
         (True, ''QWE''), (False, []), (True, ''QWE''), (True, ''IOP''), (False, [])]"
proof -
  define a d q i where adqi: "a = h ''abc'' mod 8" "d = h ''def'' mod 8" "q = h ''qwe'' mod 8"
    "i = h ''iop'' mod 8"
  have lt: "a < 8" "d < 8" "q < 8" "i < 8" by (simp_all add: adqi)
  have ne: "a \<noteq> 0" "a \<noteq> d" "a \<noteq> q" using assms by (simp_all add: adqi)
  let ?T = "DnsCache h"
  have T: "key_hash ?T = h" "val_init ?T = []" by (simp_all add: DnsCache_def)
  define B0 :: "nat option list" where "B0 = replicate 8 None"
  define B1 where "B1 = B0[0 := Some 0, a := Some (Suc 0)]"
  define B2 where "B2 = B1[0 := None, d := Some 0]"
  define B8 where "B8 = B2[d := None, q := Some 0]"
  define B12 where "B12 = B8[a := None, i := Some (Suc 0)]"
  have len: "length B0 = 8" "length B1 = 8" "length B2 = 8" "length B8 = 8" "length B12 = 8"
    by (simp_all add: B0_def B1_def B2_def B8_def B12_def)
  have nemp: "B0 \<noteq> []" "B1 \<noteq> []" "B2 \<noteq> []" "B8 \<noteq> []" "B12 \<noteq> []"
    using len by auto
  have e0: "B0 ! b = None" if "b < 8" for b using that by (simp add: B0_def)
  have e1: "B1 ! b = (if b = a then Some (Suc 0) else if b = 0 then Some 0 else None)"
    if "b < 8" for b using that lt by (simp add: B1_def B0_def nth_list_update)
  have e2: "B2 ! b = (if b = d then Some 0 else if b = a then Some (Suc 0) else None)"
    if "b < 8" for b using that lt len ne by (simp add: B2_def e1 nth_list_update)
  have e8: "B8 ! b = (if b = q then Some 0 else if b = a then Some (Suc 0) else None)"
    if "b < 8" for b using that lt len ne by (simp add: B8_def e2 nth_list_update)
  have e12: "B12 ! b = (if b = i then Some (Suc 0) else if b = q then Some 0 else None)"
    if "b < 8" for b using that lt len ne by (simp add: B12_def e8 nth_list_update)
  let ?e = "\<lparr>key = [], val = [], cached_hash = 0\<rparr> :: (string, string) node"
  let ?abc = "\<lparr>key = ''abc'', val = ''ABC'', cached_hash = a\<rparr>"
  let ?abc' = "\<lparr>key = ''abc'', val = ''ABC!'', cached_hash = a\<rparr>"
  let ?def = "\<lparr>key = ''def'', val = ''DEF'', cached_hash = d\<rparr>"
  let ?qwe = "\<lparr>key = ''qwe'', val = ''QWE'', cached_hash = q\<rparr>"
  let ?iop = "\<lparr>key = ''iop'', val = ''IOP'', cached_hash = i\<rparr>"
  let ?S = "\<lambda>B n0 n1 u. \<lparr>buckets = B, arena = [n0, n1], bucket_list = [Suc 0, 0], usage_list = u\<rparr>"
  have c0: "LruCache ?T 2 = ?S B0 ?e ?e [Suc 0, 0]"
    unfolding fresh_cache_2 by (simp add: B0_def numeral_eq_Suc)
  note h = adqi[symmetric]
  \<comment> \<open>the two insertions\<close>
  have l1: "lookup ?T (?S B0 ?e ?e [Suc 0, 0]) ''abc'' = None"
    by (simp add: lookup_two T len h e0 lt)
  have u1: "update ?T (?S B0 ?e ?e [Suc 0, 0]) ''abc'' ''ABC'' = Inr (?S B1 ?e ?abc [0, Suc 0])"
    by (subst update_two_miss[OF l1]) (simp_all add: nemp len old_bucket_head_two T h B1_def)
  have l2: "lookup ?T (?S B1 ?e ?abc [0, Suc 0]) ''def'' = None"
    using ne by (simp add: lookup_two T len h e1 lt)
  have u2: "update ?T (?S B1 ?e ?abc [0, Suc 0]) ''def'' ''DEF'' = Inr (?S B2 ?def ?abc [Suc 0, 0])"
    by (subst update_two_miss[OF l2]) (simp_all add: nemp len old_bucket_head_two T h B2_def)
  \<comment> \<open>hits on both keys\<close>
  have labc: "lookup ?T (?S B2 ?def n1 u) ''abc'' = Some (Suc 0)"
    if "key n1 = ''abc''" "cached_hash n1 = a" for n1 u
    using ne that by (simp add: lookup_two T len h e2 lt)
  have ldef: "lookup ?T (?S B2 ?def n1 u) ''def'' = Some 0"
    if "key n1 = ''abc''" "cached_hash n1 = a" for n1 u
    using ne that by (simp add: lookup_two T len h e2 lt)
  have r3: "resolve ?T (?S B2 ?def ?abc [Suc 0, 0]) ''abc'' = Inr (''ABC'', ?S B2 ?def ?abc [0, Suc 0])"
    by (subst resolve_two_hit[OF labc]) (simp_all add: nemp)
  have r4: "resolve ?T (?S B2 ?def ?abc [0, Suc 0]) ''def'' = Inr (''DEF'', ?S B2 ?def ?abc [Suc 0, 0])"
    by (subst resolve_two_hit[OF ldef]) (simp_all add: nemp)
  have u5: "update ?T (?S B2 ?def ?abc [Suc 0, 0]) ''abc'' ''ABC!'' = Inr (?S B2 ?def ?abc' [0, Suc 0])"
    by (subst update_two_hit[OF labc]) (simp_all add: nemp)
  have r6: "resolve ?T (?S B2 ?def ?abc' [0, Suc 0]) ''def'' = Inr (''DEF'', ?S B2 ?def ?abc' [Suc 0, 0])"
    by (subst resolve_two_hit[OF ldef]) (simp_all add: nemp)
  have r7: "resolve ?T (?S B2 ?def ?abc' [Suc 0, 0]) ''abc'' = Inr (''ABC!'', ?S B2 ?def ?abc' [0, Suc 0])"
    by (subst resolve_two_hit[OF labc]) (simp_all add: nemp)
  \<comment> \<open>the first eviction\<close>
  have l8: "lookup ?T (?S B2 ?def ?abc' [0, Suc 0]) ''qwe'' = None"
    using ne by (simp add: lookup_two T len h e2 lt)
  have u8: "update ?T (?S B2 ?def ?abc' [0, Suc 0]) ''qwe'' ''QWE'' = Inr (?S B8 ?qwe ?abc' [Suc 0, 0])"
    using lt by (subst update_two_miss[OF l8]) (simp_all add: nemp len old_bucket_head_two T h B8_def)
  have l9: "lookup ?T (?S B8 ?qwe ?abc' u) ''abc'' = Some (Suc 0)" for u
    using ne by (simp add: lookup_two T len h e8 lt)
  have l10: "lookup ?T (?S B8 ?qwe ?abc' u) ''qwe'' = Some 0" for u
    using ne by (simp add: lookup_two T len h e8 lt)
  have l11: "lookup ?T (?S B8 ?qwe ?abc' u) ''def'' = None" for u
    using ne by (simp add: lookup_two T len h e8 lt)
  have r9: "resolve ?T (?S B8 ?qwe ?abc' [Suc 0, 0]) ''abc'' = Inr (''ABC!'', ?S B8 ?qwe ?abc' [0, Suc 0])"
    by (subst resolve_two_hit[OF l9]) (simp_all add: nemp)
  have r10: "resolve ?T (?S B8 ?qwe ?abc' [0, Suc 0]) ''qwe'' = Inr (''QWE'', ?S B8 ?qwe ?abc' [Suc 0, 0])"
    by (subst resolve_two_hit[OF l10]) (simp_all add: nemp)
  have r11: "resolve ?T (?S B8 ?qwe ?abc' [Suc 0, 0]) ''def'' = Inr ([], ?S B8 ?qwe ?abc' [Suc 0, 0])"
    by (subst resolve_two_miss[OF l11]) (simp_all add: nemp T)
  \<comment> \<open>the second eviction\<close>
  have l12: "lookup ?T (?S B8 ?qwe ?abc' [Suc 0, 0]) ''iop'' = None"
    using ne by (simp add: lookup_two T len h e8 lt)
  have u12: "update ?T (?S B8 ?qwe ?abc' [Suc 0, 0]) ''iop'' ''IOP'' = Inr (?S B12 ?qwe ?iop [0, Suc 0])"
    using lt ne by (subst update_two_miss[OF l12]) (simp_all add: nemp len old_bucket_head_two T h B12_def)
  have l13: "lookup ?T (?S B12 ?qwe ?iop u) ''qwe'' = Some 0" for u
    using ne by (simp add: lookup_two T len h e12 lt)
  have l14: "lookup ?T (?S B12 ?qwe ?iop u) ''iop'' = Some (Suc 0)" for u
    using ne by (simp add: lookup_two T len h e12 lt)
  have l15: "lookup ?T (?S B12 ?qwe ?iop u) ''abc'' = None" for u
    using ne by (simp add: lookup_two T len h e12 lt)
  have r13: "resolve ?T (?S B12 ?qwe ?iop [0, Suc 0]) ''qwe'' = Inr (''QWE'', ?S B12 ?qwe ?iop [Suc 0, 0])"
    by (subst resolve_two_hit[OF l13]) (simp_all add: nemp)
  have r14: "resolve ?T (?S B12 ?qwe ?iop [Suc 0, 0]) ''iop'' = Inr (''IOP'', ?S B12 ?qwe ?iop [0, Suc 0])"
    by (subst resolve_two_hit[OF l14]) (simp_all add: nemp)
  have r15: "resolve ?T (?S B12 ?qwe ?iop [0, Suc 0]) ''abc'' = Inr ([], ?S B12 ?qwe ?iop [0, Suc 0])"
    by (subst resolve_two_miss[OF l15]) (simp_all add: nemp T)
  show ?thesis
    unfolding c0 basic_test_def
    by (simp add: results_def u1 u2 r3 r4 u5 r6 r7 u8 r9 r10 r11 u12 r13 r14 r15
        labc ldef l9 l10 l11 l13 l14 l15)
qed

theorem basic_test_results_witness:
  "libstdcxx_hash ''abc'' mod 8 \<noteq> 0 \<and>
   libstdcxx_hash ''abc'' mod 8 \<noteq> libstdcxx_hash ''def'' mod 8 \<and>
   libstdcxx_hash ''abc'' mod 8 \<noteq> libstdcxx_hash ''qwe'' mod 8 \<and>
   results (run (DnsCache libstdcxx_hash) (LruCache (DnsCache libstdcxx_hash) 2) basic_test) =
     Inr [(True, ''ABC''), (True, ''DEF''), (True, ''DEF''), (True, ''ABC!''), (True, ''ABC!''),
          (True, ''QWE''), (False, []), (True, ''QWE''), (True, ''IOP''), (False, [])]"
proof -
  have 1: "libstdcxx_hash ''abc'' mod 8 \<noteq> 0"
    by (simp add: libstdcxx_hash_def)
  have 2: "libstdcxx_hash ''abc'' mod 8 \<noteq> libstdcxx_hash ''def'' mod 8"
    by (simp add: libstdcxx_hash_def)
  have 3: "libstdcxx_hash ''abc'' mod 8 \<noteq> libstdcxx_hash ''qwe'' mod 8"
    by (simp add: libstdcxx_hash_def)
  from basic_test_results[OF 1 2 3] 1 2 3 show ?thesis by blast
qed

text \<open>
  The condition on the buckets is needed. With the length of the key as its hash the four
  keys share bucket 3, and the first \<^verbatim>\<open>resolve("abc")\<close> of the test already misses.
\<close>

lemma basic_test_with_length_hash:
  "results (run (DnsCache length) (LruCache (DnsCache length) 2) basic_test) =
     Inr [(False, []), (True, ''DEF''), (True, ''DEF''), (True, ''ABC!''), (False, []),
          (True, ''QWE''), (False, []), (True, ''QWE''), (True, ''IOP''), (False, [])]"
  unfolding fresh_cache_2 by code_simp

section \<open>What the walk of a bucket visits\<close>

lemma visited_takeWhile: "visited ar b its = takeWhile (\<lambda>i. cached_hash (ar ! i) = b) its"
  by (induction its) auto

lemma find_node_visited: "find_node ar b k its = find (\<lambda>i. k = key (ar ! i)) (visited ar b its)"
  by (induction its) auto

lemma slist_from_suffix: "\<exists>pre. l = pre @ slist_from l it"
proof (cases it)
  case None
  then show ?thesis by (simp add: slist_from_def)
next
  case (Some i)
  have "l = takeWhile (\<lambda>j. j \<noteq> i) l @ slist_from l (Some i)"
    by (simp add: slist_from_def)
  with Some show ?thesis by blast
qed

lemma visited_split:
  "\<exists>post. its = visited ar b its @ post \<and> (post = [] \<or> cached_hash (ar ! hd post) \<noteq> b)"
proof -
  let ?P = "\<lambda>i. cached_hash (ar ! i) = b"
  have "its = visited ar b its @ dropWhile ?P its"
    by (simp add: visited_takeWhile)
  moreover have "dropWhile ?P its = [] \<or> \<not> ?P (hd (dropWhile ?P its))"
    using hd_dropWhile[of ?P its] by blast
  ultimately show ?thesis by blast
qed

lemma bucket_walk_run:
  "\<exists>pre post. bucket_list c = pre @ bucket_walk c b @ post \<and>
     (post = [] \<or> cached_hash (arena c ! hd post) \<noteq> b)"
proof -
  obtain pre where 1: "bucket_list c = pre @ slist_from (bucket_list c) (buckets c ! b)"
    using slist_from_suffix by blast
  obtain post where 2: "slist_from (bucket_list c) (buckets c ! b) = bucket_walk c b @ post"
    "post = [] \<or> cached_hash (arena c ! hd post) \<noteq> b"
    using visited_split[of "slist_from (bucket_list c) (buckets c ! b)" "arena c" b]
    unfolding bucket_walk_def by blast
  from 1 2 show ?thesis by metis
qed

lemma bucket_walk_hash: "i \<in> set (bucket_walk c b) \<Longrightarrow> cached_hash (arena c ! i) = b"
  unfolding bucket_walk_def visited_takeWhile by (drule set_takeWhileD) simp

lemma bucket_walk_subset: "set (bucket_walk c b) \<subseteq> set (bucket_list c)"
  using bucket_walk_run[of c b] by (metis Un_iff set_append subsetI)

lemma bucket_walk_distinct: "distinct (bucket_list c) \<Longrightarrow> distinct (bucket_walk c b)"
  using bucket_walk_run[of c b] by (metis distinct_append)

lemma set_bucket_members:
  "set (bucket_members c b) = {i. i < length (arena c) \<and> cached_hash (arena c ! i) = b}"
  by (auto simp: bucket_members_def)

text \<open>
  C1, as claimed: the walk of a bucket visits exactly the nodes whose cached hash is the
  bucket. It does not. Right after construction every node has the cached hash 0 and
  every bucket is \<^verbatim>\<open>end()\<close>, so the walk of bucket 0 visits nothing. After four insertions
  into a cache of capacity 2, with the length of the key as its hash, node 1 has the
  cached hash 2 and bucket 2 is \<^verbatim>\<open>end()\<close>.
\<close>

theorem bucket_walk_misses_members:
  "bucket_walk (LruCache (DnsCache length) 2) 0 = [] \<and>
   bucket_members (LruCache (DnsCache length) 2) 0 = [0, 1] \<and>
   set (bucket_walk (LruCache (DnsCache length) 2) 0) \<noteq>
     set (bucket_members (LruCache (DnsCache length) 2) 0) \<and>
   run (DnsCache length) (LruCache (DnsCache length) 2)
     [Update ''a'' ''A'', Update ''bb'' ''B'', Update ''cc'' ''C'', Update ''ddd'' ''D''] =
     Inr ([], \<lparr>buckets = [None, None, None, Some 0, None, None, None, None],
               arena = [\<lparr>key = ''ddd'', val = ''D'', cached_hash = 3\<rparr>,
                        \<lparr>key = ''cc'', val = ''C'', cached_hash = 2\<rparr>],
               bucket_list = [1, 0], usage_list = [1, 0]\<rparr>) \<and>
   bucket_walk \<lparr>buckets = [None, None, None, Some 0, None, None, None, None],
               arena = [\<lparr>key = ''ddd'', val = ''D'', cached_hash = 3\<rparr>,
                        \<lparr>key = ''cc'', val = ''C'', cached_hash = 2\<rparr>],
               bucket_list = [1, 0], usage_list = [1, 0]\<rparr> 2 = [] \<and>
   bucket_members \<lparr>buckets = [None, None, None, Some 0, None, None, None, None],
               arena = [\<lparr>key = ''ddd'', val = ''D'', cached_hash = 3\<rparr>,
                        \<lparr>key = ''cc'', val = ''C'', cached_hash = 2\<rparr>],
               bucket_list = [1, 0], usage_list = [1, 0]\<rparr> 2 = [1]"
  unfolding fresh_cache_2 by code_simp

text \<open>
  C1, amended: on every cache that a run of calls reaches from construction, the walk of
  a bucket \<open>b\<close> visits only nodes whose cached hash is \<open>b\<close>, each once; the nodes it visits
  are consecutive in the bucket list, and after them the list ends or goes on with a node
  of another cached hash; a bucket that is not \<^verbatim>\<open>end()\<close> holds a node whose cached hash is
  \<open>b\<close>. Nodes with the cached hash \<open>b\<close> may lie outside the walk.
\<close>

theorem bucket_walk_sound:
  assumes "run T (LruCache T capacity) cs = Inr (rs, c)" and "b < length (buckets c)"
  shows "(\<forall>i \<in> set (bucket_walk c b). i < length (arena c) \<and> cached_hash (arena c ! i) = b) \<and>
         distinct (bucket_walk c b) \<and>
         set (bucket_walk c b) \<subseteq> set (bucket_members c b) \<and>
         (\<exists>pre post. bucket_list c = pre @ bucket_walk c b @ post \<and>
            (post = [] \<or> cached_hash (arena c ! hd post) \<noteq> b)) \<and>
         (\<forall>i. buckets c ! b = Some i \<longrightarrow> i < length (arena c) \<and> cached_hash (arena c ! i) = b)"
proof -
  from assms(1) have inv: "well_formed c" by (rule reach_wf)
  then have bl: "bucket_list c = rev [0..<length (arena c)]" by (simp add: well_formed_def)
  have 1: "i < length (arena c) \<and> cached_hash (arena c ! i) = b" if "i \<in> set (bucket_walk c b)" for i
    using that bucket_walk_subset[of c b] bucket_walk_hash[OF that] by (auto simp: bl)
  have 2: "distinct (bucket_walk c b)" by (rule bucket_walk_distinct) (simp add: bl)
  have 3: "set (bucket_walk c b) \<subseteq> set (bucket_members c b)"
    using 1 by (auto simp: set_bucket_members)
  have 4: "i < length (arena c) \<and> cached_hash (arena c ! i) = b" if "buckets c ! b = Some i" for i
    using inv assms(2) that by (simp add: well_formed_def)
  from 1 2 3 4 bucket_walk_run[of c b] show ?thesis by blast
qed

theorem bucket_walk_sound_witness:
  "run (DnsCache length) (LruCache (DnsCache length) 2)
     [Update ''a'' ''A'', Update ''bb'' ''B'', Update ''cc'' ''C''] =
     Inr ([], \<lparr>buckets = [None, None, Some 1, None, None, None, None, None],
               arena = [\<lparr>key = ''bb'', val = ''B'', cached_hash = 2\<rparr>,
                        \<lparr>key = ''cc'', val = ''C'', cached_hash = 2\<rparr>],
               bucket_list = [1, 0], usage_list = [0, 1]\<rparr>) \<and>
   (2::nat) < length (buckets \<lparr>buckets = [None, None, Some 1, None, None, None, None, None],
               arena = [\<lparr>key = ''bb'', val = ''B'', cached_hash = 2\<rparr>,
                        \<lparr>key = ''cc'', val = ''C'', cached_hash = 2\<rparr>],
               bucket_list = [1, 0], usage_list = [0, 1]\<rparr>) \<and>
   bucket_walk \<lparr>buckets = [None, None, Some 1, None, None, None, None, None],
               arena = [\<lparr>key = ''bb'', val = ''B'', cached_hash = 2\<rparr>,
                        \<lparr>key = ''cc'', val = ''C'', cached_hash = 2\<rparr>],
               bucket_list = [1, 0], usage_list = [0, 1]\<rparr> 2 = [1, 0] \<and>
   set (bucket_walk \<lparr>buckets = [None, None, Some 1, None, None, None, None, None],
               arena = [\<lparr>key = ''bb'', val = ''B'', cached_hash = 2\<rparr>,
                        \<lparr>key = ''cc'', val = ''C'', cached_hash = 2\<rparr>],
               bucket_list = [1, 0], usage_list = [0, 1]\<rparr> 2)
     \<subseteq> set (bucket_members \<lparr>buckets = [None, None, Some 1, None, None, None, None, None],
               arena = [\<lparr>key = ''bb'', val = ''B'', cached_hash = 2\<rparr>,
                        \<lparr>key = ''cc'', val = ''C'', cached_hash = 2\<rparr>],
               bucket_list = [1, 0], usage_list = [0, 1]\<rparr> 2)"
proof -
  let ?c = "\<lparr>buckets = [None, None, Some 1, None, None, None, None, None],
               arena = [\<lparr>key = ''bb'', val = ''B'', cached_hash = 2\<rparr>,
                        \<lparr>key = ''cc'', val = ''C'', cached_hash = 2\<rparr>],
               bucket_list = [1, 0], usage_list = [0, 1]\<rparr> :: (string, string) cache"
  have 1: "run (DnsCache length) (LruCache (DnsCache length) 2)
     [Update ''a'' ''A'', Update ''bb'' ''B'', Update ''cc'' ''C''] = Inr ([], ?c)"
    unfolding fresh_cache_2 by code_simp
  have 2: "(2::nat) < length (buckets ?c)" by simp
  have 3: "bucket_walk ?c 2 = [1, 0]" unfolding fresh_cache_2 by code_simp
  from bucket_walk_sound[OF 1 2] 1 2 3 show ?thesis by blast
qed

section \<open>Eviction takes more than the least recently used key\<close>

text \<open>
  An \<^verbatim>\<open>update\<close> that misses takes the front of the usage list as its victim and sets the
  victim's old bucket to \<^verbatim>\<open>end()\<close>, unless the node after the victim has the same cached
  hash. A node before the victim in the same bucket's walk is cut off with it.
\<close>

text \<open>
  C2, on a cache of capacity 2 with the length of the key as its hash: after the updates of
  \<^verbatim>\<open>"a"\<close>, \<^verbatim>\<open>"bb"\<close> and \<^verbatim>\<open>"cc"\<close>, the keys \<^verbatim>\<open>"bb"\<close> and \<^verbatim>\<open>"cc"\<close> are hits, \<^verbatim>\<open>"bb"\<close> first and
  \<^verbatim>\<open>"cc"\<close> last. The update of \<^verbatim>\<open>"ddd"\<close> then evicts \<^verbatim>\<open>"bb"\<close>, the key touched longest ago,
  and with it \<^verbatim>\<open>"cc"\<close>, the key touched last: both miss afterwards.
\<close>

theorem update_evicts_most_recent_key:
  "results (run (DnsCache length) (LruCache (DnsCache length) 2)
     [Update ''a'' ''A'', Update ''bb'' ''B'', Update ''cc'' ''C'',
      Resolve ''bb'', Resolve ''cc'',
      Update ''ddd'' ''D'',
      Resolve ''cc'', Resolve ''bb'', Resolve ''ddd'']) =
   Inr [(True, ''B''), (True, ''C''), (False, []), (False, []), (True, ''D'')]"
  unfolding fresh_cache_2 by code_simp

lemma hits_at_most_capacity:
  assumes "well_formed c"
  shows "card {k. lookup T c k \<noteq> None} \<le> length (arena c)"
proof -
  have "{k. lookup T c k \<noteq> None} \<subseteq> key ` set (arena c)"
  proof
    fix k assume "k \<in> {k. lookup T c k \<noteq> None}"
    then obtain i where i: "lookup T c k = Some i" by auto
    from wf_lookup_less[OF assms i] lookup_Some(2)[OF i] show "k \<in> key ` set (arena c)"
      by (metis imageI nth_mem)
  qed
  then have "card {k. lookup T c k \<noteq> None} \<le> card (key ` set (arena c))"
    by (intro card_mono) auto
  also have "\<dots> \<le> card (set (arena c))" by (rule card_image_le) simp
  also have "\<dots> \<le> length (arena c)" by (rule card_length)
  finally show ?thesis .
qed

text \<open>
  C5, on the same cache: after the updates of four distinct keys, two of them still in the
  arena, \<^verbatim>\<open>"ddd"\<close> is the only key that \<^verbatim>\<open>resolve\<close> finds. One live pair, for a capacity
  of 2.
\<close>

theorem four_inserts_leave_one_key:
  "run (DnsCache length) (LruCache (DnsCache length) 2)
     [Update ''a'' ''A'', Update ''bb'' ''B'', Update ''cc'' ''C'', Update ''ddd'' ''D''] =
     Inr ([], \<lparr>buckets = [None, None, None, Some 0, None, None, None, None],
               arena = [\<lparr>key = ''ddd'', val = ''D'', cached_hash = 3\<rparr>,
                        \<lparr>key = ''cc'', val = ''C'', cached_hash = 2\<rparr>],
               bucket_list = [1, 0], usage_list = [1, 0]\<rparr>) \<and>
   {k. lookup (DnsCache length)
         \<lparr>buckets = [None, None, None, Some 0, None, None, None, None],
          arena = [\<lparr>key = ''ddd'', val = ''D'', cached_hash = 3\<rparr>,
                   \<lparr>key = ''cc'', val = ''C'', cached_hash = 2\<rparr>],
          bucket_list = [1, 0], usage_list = [1, 0]\<rparr> k \<noteq> None} = {''ddd''} \<and>
   card {k. lookup (DnsCache length)
         \<lparr>buckets = [None, None, None, Some 0, None, None, None, None],
          arena = [\<lparr>key = ''ddd'', val = ''D'', cached_hash = 3\<rparr>,
                   \<lparr>key = ''cc'', val = ''C'', cached_hash = 2\<rparr>],
          bucket_list = [1, 0], usage_list = [1, 0]\<rparr> k \<noteq> None} = 1"
proof -
  let ?T = "DnsCache length"
  let ?c = "\<lparr>buckets = [None, None, None, Some 0, None, None, None, None],
               arena = [\<lparr>key = ''ddd'', val = ''D'', cached_hash = 3\<rparr>,
                        \<lparr>key = ''cc'', val = ''C'', cached_hash = 2\<rparr>],
               bucket_list = [1, 0], usage_list = [1, 0]\<rparr> :: (string, string) cache"
  have 1: "run ?T (LruCache ?T 2)
     [Update ''a'' ''A'', Update ''bb'' ''B'', Update ''cc'' ''C'', Update ''ddd'' ''D''] = Inr ([], ?c)"
    unfolding fresh_cache_2 by code_simp
  have d: "lookup ?T ?c ''ddd'' = Some 0" unfolding fresh_cache_2 by code_simp
  have c: "lookup ?T ?c ''cc'' = None" unfolding fresh_cache_2 by code_simp
  have "k = ''ddd''" if "lookup ?T ?c k \<noteq> None" for k
  proof -
    from that obtain i where i: "lookup ?T ?c k = Some i" by auto
    from lookup_Some(1,2)[OF i] have "k = ''ddd'' \<or> k = ''cc''" by auto
    with c i show ?thesis by auto
  qed
  with d have 2: "{k. lookup ?T ?c k \<noteq> None} = {''ddd''}" by auto
  from 1 2 show ?thesis by simp
qed


section \<open>Insertions of new keys\<close>





end
